theory Spec2Isabelle
  imports Main "HOL-Library.Multiset" "HOL-Library.Sublist"
begin

section \<open>The node of \<^verbatim>\<open>tree.hpp\<close>\<close>

text \<open>
  \<^verbatim>\<open>template<typename T> class node : public std::list<node<T> >\<close> holds a payload
  \<^verbatim>\<open>data_\<close> and, through its base class, the ordered list of the children it owns by
  value. A node is therefore a finite rose tree. The selector \<open>data\<close> reads the private
  field \<^verbatim>\<open>data_\<close>, as the accessors \<^verbatim>\<open>data()\<close> and \<^verbatim>\<open>const_data()\<close> do.
\<close>

datatype 'a node = Node (data: 'a) (children: "'a node list")

text \<open>\<^verbatim>\<open>node(const value_type& data) : data_(data) {}\<close>: a node without children. The
  constructor is not \<^verbatim>\<open>explicit\<close>, so it is also the implicit conversion from a value to
  a node.\<close>

definition node_of_value :: "'a \<Rightarrow> 'a node" where
  "node_of_value d = Node d []"

text \<open>\<^verbatim>\<open>node(const node& other) : container_type(other), data_(other.data_)\<close>: the copy
  constructor copies the list of children (each child through this same constructor) and
  the payload.\<close>

fun node_copy :: "'a node \<Rightarrow> 'a node" where
  "node_copy (Node d cs) = Node d (map node_copy cs)"

text \<open>\<^verbatim>\<open>bool operator==(const node_type& other)\<close> (member, lines 85-88) and the free
  \<^verbatim>\<open>operator==(const node<T>&, const node<T>&)\<close> (lines 280-284): both return
  \<^verbatim>\<open>data_ == other.data_\<close>.\<close>

definition node_eq_member :: "'a node \<Rightarrow> 'a node \<Rightarrow> bool" where
  "node_eq_member a other = (data a = data other)"

definition node_eq :: "'a node \<Rightarrow> 'a node \<Rightarrow> bool" where
  "node_eq a b = (data a = data b)"

text \<open>\<^verbatim>\<open>bool operator==(const value_type& value)\<close> (lines 90-93).\<close>

definition node_eq_value :: "'a node \<Rightarrow> 'a \<Rightarrow> bool" where
  "node_eq_value a v = (data a = v)"

section \<open>Removal\<close>

text \<open>\<^verbatim>\<open>std::list<node<T> >::remove(const node<T>& value)\<close> erases every element that
  compares equal to \<^verbatim>\<open>value\<close> and keeps the others in order. \<^verbatim>\<open>remove_recursive\<close> calls it
  as \<^verbatim>\<open>this->remove(data)\<close>, so the argument is the node converted from \<^verbatim>\<open>data\<close>.\<close>

definition list_remove :: "'a node \<Rightarrow> 'a node list \<Rightarrow> 'a node list" where
  "list_remove v cs = filter (\<lambda>c. \<not> node_eq_member c v) cs"

text \<open>
  \<^verbatim>\<open>remove_recursive\<close> (lines 255-268). The object is mutated in place; the model returns
  the count together with the node after the call. \<open>remove_children\<close> is the
  \<^verbatim>\<open>while (it != this->end())\<close> loop: it walks the children left to right, replaces each by
  its state after the recursive call and adds the call's result to \<^verbatim>\<open>many\<close>.
  \<^verbatim>\<open>size_type\<close> is an unsigned machine integer; every count here is at most the number of
  nodes held in memory, so it cannot wrap, and \<^verbatim>\<open>size - this->size()\<close> never goes below
  zero because \<^verbatim>\<open>remove\<close> only erases.
\<close>

function remove_recursive :: "'a \<Rightarrow> 'a node \<Rightarrow> nat \<times> 'a node"
  and remove_children :: "'a \<Rightarrow> 'a node list \<Rightarrow> nat \<Rightarrow> nat \<times> 'a node list"
where
  "remove_recursive v (Node d cs) =
     (let (many, cs1) = remove_children v cs 0;
          size = length cs1;
          cs2 = list_remove (node_of_value v) cs1;
          many = many + (size - length cs2)
      in (many, Node d cs2))"
| "remove_children v [] many = (many, [])"
| "remove_children v (c # cs) many =
     (let (k, c1) = remove_recursive v c;
          (m, cs1) = remove_children v cs (many + k)
      in (m, c1 # cs1))"
  by pat_completeness auto
termination
  by (relation "measure (\<lambda>x. case x of
          Inl (v, n) \<Rightarrow> 2 * size n
        | Inr (v, cs, many) \<Rightarrow> 2 * size_list size cs + 1)") auto

section \<open>Addresses of nodes\<close>

text \<open>
  Both iterators keep \<^verbatim>\<open>node_type*\<close> values that point into the tree on which
  \<^verbatim>\<open>dfs_begin\<close> or \<^verbatim>\<open>bfs_begin\<close> was called, and they compare these pointers. The children
  are stored by value in a \<^verbatim>\<open>std::list\<close>, so every node object of that tree has an address
  of its own, fixed by its position. An address is modelled by that position: the list of
  child indices that leads from the root of the tree to the node, the empty list being
  the address of the root. The null pointer \<^verbatim>\<open>0\<close> is \<open>None\<close> of \<open>ptr option\<close>. A path
  that leads to no node is a pointer to an object that is not there.
\<close>

type_synonym ptr = "nat list"

fun deref :: "'a node \<Rightarrow> ptr \<Rightarrow> 'a node option" where
  "deref t [] = Some t"
| "deref t (i # p) =
     (if i < length (children t) then deref (children t ! i) p else None)"

text \<open>The addresses \<^verbatim>\<open>&*it\<close> for \<^verbatim>\<open>it\<close> running from \<^verbatim>\<open>n->begin()\<close> to \<^verbatim>\<open>n->end()\<close>,
  where \<open>n\<close> is the address of the node \<open>nd\<close>.\<close>

definition child_ptrs :: "ptr \<Rightarrow> 'a node \<Rightarrow> ptr list" where
  "child_ptrs n nd = map (\<lambda>i. n @ [i]) [0..<length (children nd)]"

text \<open>What the source leaves undefined: \<^verbatim>\<open>top()\<close> or \<^verbatim>\<open>front()\<close> of an empty container,
  and the use of a pointer to no node.\<close>

datatype error = Empty_container | Dangling_pointer

section \<open>The depth-first iterator\<close>

text \<open>\<^verbatim>\<open>std::stack<node_type*> stack_\<close>: a list whose head is the top. The field is
  named \<open>stack\<close> here, and \<^verbatim>\<open>queue_\<close> below \<open>queue\<close>.\<close>

record dfs_iterator =
  stack :: "ptr list"

definition push :: "ptr \<Rightarrow> ptr list \<Rightarrow> ptr list" where
  "push p s = p # s"

text \<open>\<^verbatim>\<open>explicit dfs_iterator(node_type& root)\<close> (lines 101-104), the default constructor
  (lines 110-113), \<^verbatim>\<open>dfs_begin\<close> and \<^verbatim>\<open>dfs_end\<close> (lines 161-169). The argument of
  \<open>dfs_begin\<close> is the address of the node it is called on.\<close>

definition dfs_iterator_root :: "ptr \<Rightarrow> dfs_iterator" where
  "dfs_iterator_root root = \<lparr>stack = push root []\<rparr>"

definition dfs_iterator_default :: dfs_iterator where
  "dfs_iterator_default = \<lparr>stack = []\<rparr>"

definition dfs_begin :: "ptr \<Rightarrow> dfs_iterator" where
  "dfs_begin this = dfs_iterator_root this"

definition dfs_end :: dfs_iterator where
  "dfs_end = dfs_iterator_default"

text \<open>\<^verbatim>\<open>operator++\<close> (lines 115-132): nothing happens on an empty stack; otherwise the top is
  popped and the addresses of its children are pushed from \<^verbatim>\<open>rbegin()\<close> to \<^verbatim>\<open>rend()\<close>, that
  is last child first.\<close>

definition dfs_next :: "'a node \<Rightarrow> dfs_iterator \<Rightarrow> error + dfs_iterator" where
  "dfs_next t it =
     (case stack it of
        [] \<Rightarrow> Inr it
      | n # rest \<Rightarrow>
          (case deref t n of
             None \<Rightarrow> Inl Dangling_pointer
           | Some nd \<Rightarrow> Inr (it\<lparr>stack := fold push (rev (child_ptrs n nd)) rest\<rparr>)))"

text \<open>\<^verbatim>\<open>operator->\<close> (lines 134-140) checks for the empty stack and returns the null
  pointer then.\<close>

definition dfs_arrow :: "dfs_iterator \<Rightarrow> ptr option" where
  "dfs_arrow it = (case stack it of [] \<Rightarrow> None | n # rest \<Rightarrow> Some n)"

text \<open>\<^verbatim>\<open>operator*\<close> (lines 142-145) is \<^verbatim>\<open>return *stack_.top();\<close> with no check.\<close>

definition dfs_star :: "'a node \<Rightarrow> dfs_iterator \<Rightarrow> error + 'a node" where
  "dfs_star t it =
     (case stack it of
        [] \<Rightarrow> Inl Empty_container
      | n # rest \<Rightarrow> (case deref t n of None \<Rightarrow> Inl Dangling_pointer | Some nd \<Rightarrow> Inr nd))"

text \<open>\<^verbatim>\<open>operator!=\<close> and \<^verbatim>\<open>operator==\<close> (lines 147-155) compare the two \<^verbatim>\<open>operator->\<close>
  results.\<close>

definition dfs_neq :: "dfs_iterator \<Rightarrow> dfs_iterator \<Rightarrow> bool" where
  "dfs_neq it other = (dfs_arrow it \<noteq> dfs_arrow other)"

definition dfs_eq :: "dfs_iterator \<Rightarrow> dfs_iterator \<Rightarrow> bool" where
  "dfs_eq it other = (\<not> dfs_neq it other)"

section \<open>The breadth-first iterator\<close>

text \<open>\<^verbatim>\<open>std::queue<node_type*> queue_\<close>: a list whose head is the front; \<^verbatim>\<open>push\<close> adds at
  the back.\<close>

record bfs_iterator =
  queue :: "ptr list"

definition enqueue :: "ptr \<Rightarrow> ptr list \<Rightarrow> ptr list" where
  "enqueue p q = q @ [p]"

text \<open>The constructors (lines 177-187), \<^verbatim>\<open>bfs_begin\<close> and \<^verbatim>\<open>bfs_end\<close> (lines 235-243).\<close>

definition bfs_iterator_root :: "ptr \<Rightarrow> bfs_iterator" where
  "bfs_iterator_root root = \<lparr>queue = enqueue root []\<rparr>"

definition bfs_iterator_default :: bfs_iterator where
  "bfs_iterator_default = \<lparr>queue = []\<rparr>"

definition bfs_begin :: "ptr \<Rightarrow> bfs_iterator" where
  "bfs_begin this = bfs_iterator_root this"

definition bfs_end :: bfs_iterator where
  "bfs_end = bfs_iterator_default"

text \<open>\<^verbatim>\<open>operator++\<close> (lines 189-206): the front is popped and the addresses of its children
  are pushed from \<^verbatim>\<open>begin()\<close> to \<^verbatim>\<open>end()\<close>.\<close>

definition bfs_next :: "'a node \<Rightarrow> bfs_iterator \<Rightarrow> error + bfs_iterator" where
  "bfs_next t it =
     (case queue it of
        [] \<Rightarrow> Inr it
      | n # rest \<Rightarrow>
          (case deref t n of
             None \<Rightarrow> Inl Dangling_pointer
           | Some nd \<Rightarrow> Inr (it\<lparr>queue := fold enqueue (child_ptrs n nd) rest\<rparr>)))"

text \<open>\<^verbatim>\<open>operator->\<close> (lines 208-214), \<^verbatim>\<open>operator*\<close> (lines 216-219), \<^verbatim>\<open>operator!=\<close> and
  \<^verbatim>\<open>operator==\<close> (lines 221-229).\<close>

definition bfs_arrow :: "bfs_iterator \<Rightarrow> ptr option" where
  "bfs_arrow it = (case queue it of [] \<Rightarrow> None | n # rest \<Rightarrow> Some n)"

definition bfs_star :: "'a node \<Rightarrow> bfs_iterator \<Rightarrow> error + 'a node" where
  "bfs_star t it =
     (case queue it of
        [] \<Rightarrow> Inl Empty_container
      | n # rest \<Rightarrow> (case deref t n of None \<Rightarrow> Inl Dangling_pointer | Some nd \<Rightarrow> Inr nd))"

definition bfs_neq :: "bfs_iterator \<Rightarrow> bfs_iterator \<Rightarrow> bool" where
  "bfs_neq it other = (bfs_arrow it \<noteq> bfs_arrow other)"

definition bfs_eq :: "bfs_iterator \<Rightarrow> bfs_iterator \<Rightarrow> bool" where
  "bfs_eq it other = (\<not> bfs_neq it other)"

section \<open>Addresses of children, and a measure for the loops over an iterator\<close>


lemma deref_append:
  "deref t (p @ q) = (case deref t p of None \<Rightarrow> None | Some n \<Rightarrow> deref n q)"
  by (induction p arbitrary: t) auto

lemma deref_child:
  "deref t p = Some nd \<Longrightarrow> i < length (children nd) \<Longrightarrow>
   deref t (p @ [i]) = Some (children nd ! i)"
  by (simp add: deref_append)

lemma map_deref_child_ptrs:
  "deref t p = Some nd \<Longrightarrow> map (deref t) (child_ptrs p nd) = map Some (children nd)"
  by (rule nth_equalityI) (simp_all add: child_ptrs_def deref_child)

lemma fold_push: "fold push xs s = rev xs @ s"
  by (induction xs arbitrary: s) (simp_all add: push_def)

lemma fold_enqueue: "fold enqueue xs q = q @ xs"
  by (induction xs arbitrary: q) (simp_all add: enqueue_def)

text \<open>The weight of a container of addresses is the total size of the subtrees they point
  to. An advance from a valid top or front replaces one subtree by its children, so the
  weight goes down: this is why every loop over an iterator ends.\<close>

definition ptr_weight :: "'a node \<Rightarrow> ptr \<Rightarrow> nat" where
  "ptr_weight t p = (case deref t p of None \<Rightarrow> 0 | Some nd \<Rightarrow> size nd)"

definition weight :: "'a node \<Rightarrow> ptr list \<Rightarrow> nat" where
  "weight t ps = sum_list (map (ptr_weight t) ps)"

lemma weight_append: "weight t (ps @ qs) = weight t ps + weight t qs"
  by (simp add: weight_def)

lemma weight_child_ptrs:
  assumes "deref t p = Some nd"
  shows "weight t (child_ptrs p nd) < ptr_weight t p"
proof -
  have "map (ptr_weight t) (child_ptrs p nd) = map size (children nd)"
    by (rule nth_equalityI) (simp_all add: child_ptrs_def ptr_weight_def deref_child [OF assms])
  then have "weight t (child_ptrs p nd) = sum_list (map size (children nd))"
    by (simp add: weight_def)
  also have "\<dots> \<le> size_list size (children nd)"
    by (simp add: size_list_conv_sum_list)
  also have "\<dots> < size nd"
    by (cases nd) simp
  finally show ?thesis using assms by (simp add: ptr_weight_def)
qed

lemma dfs_next_weight:
  "dfs_star t it = Inr nd \<Longrightarrow> dfs_next t it = Inr it' \<Longrightarrow>
   weight t (stack it') < weight t (stack it)"
  using weight_child_ptrs
  by (fastforce simp: dfs_star_def dfs_next_def fold_push weight_append weight_def
      split: list.splits option.splits)

lemma bfs_next_weight:
  "bfs_star t it = Inr nd \<Longrightarrow> bfs_next t it = Inr it' \<Longrightarrow>
   weight t (queue it') < weight t (queue it)"
  using weight_child_ptrs
  by (fastforce simp: bfs_star_def bfs_next_def fold_enqueue weight_append weight_def
      split: list.splits option.splits)

section \<open>Loops over the iterators\<close>

text \<open>
  The order of the visit is what the loop
  \<^verbatim>\<open>for (it = n.dfs_begin(); it != n.dfs_end(); ++it) visit(*it);\<close>
  passes to \<^verbatim>\<open>visit\<close>. \<open>dfs_visit\<close> and \<open>bfs_visit\<close> are this loop from any iterator,
  collecting the nodes.
\<close>

function dfs_visit :: "'a node \<Rightarrow> dfs_iterator \<Rightarrow> error + 'a node list" where
  "dfs_visit t it =
     (if dfs_neq it dfs_end then
        (case dfs_star t it of
           Inl e \<Rightarrow> Inl e
         | Inr nd \<Rightarrow>
            (case dfs_next t it of
               Inl e \<Rightarrow> Inl e
             | Inr it' \<Rightarrow>
                (case dfs_visit t it' of Inl e \<Rightarrow> Inl e | Inr ns \<Rightarrow> Inr (nd # ns))))
      else Inr [])"
  by pat_completeness auto
termination
  by (relation "measure (\<lambda>(t, it). weight t (stack it))") (auto intro: dfs_next_weight)

function bfs_visit :: "'a node \<Rightarrow> bfs_iterator \<Rightarrow> error + 'a node list" where
  "bfs_visit t it =
     (if bfs_neq it bfs_end then
        (case bfs_star t it of
           Inl e \<Rightarrow> Inl e
         | Inr nd \<Rightarrow>
            (case bfs_next t it of
               Inl e \<Rightarrow> Inl e
             | Inr it' \<Rightarrow>
                (case bfs_visit t it' of Inl e \<Rightarrow> Inl e | Inr ns \<Rightarrow> Inr (nd # ns))))
      else Inr [])"
  by pat_completeness auto
termination
  by (relation "measure (\<lambda>(t, it). weight t (queue it))") (auto intro: bfs_next_weight)

text \<open>
  \<^verbatim>\<open>std::find(first, last, value)\<close> on breadth-first iterators, as
  \<^verbatim>\<open>contains_recursive\<close> instantiates it:
  \<^verbatim>\<open>for (; first != last; ++first) if (*first == value) return first; return last;\<close>
  where \<^verbatim>\<open>*first == value\<close> is \<^verbatim>\<open>node::operator==(const value_type&)\<close>.
\<close>

function find_bfs ::
  "'a node \<Rightarrow> bfs_iterator \<Rightarrow> bfs_iterator \<Rightarrow> 'a \<Rightarrow> error + bfs_iterator" where
  "find_bfs t first lst v =
     (if bfs_neq first lst then
        (case bfs_star t first of
           Inl e \<Rightarrow> Inl e
         | Inr nd \<Rightarrow>
            if node_eq_value nd v then Inr first
            else (case bfs_next t first of
                    Inl e \<Rightarrow> Inl e
                  | Inr first' \<Rightarrow> find_bfs t first' lst v))
      else Inr lst)"
  by pat_completeness auto
termination
  by (relation "measure (\<lambda>(t, first, lst, v). weight t (queue first))")
     (auto intro: bfs_next_weight)

text \<open>\<^verbatim>\<open>contains_recursive\<close> (lines 250-253):
  \<^verbatim>\<open>return std::find(bfs_begin(), bfs_end(), data) != bfs_end();\<close>. The node is the root of
  the store and its own address is the empty path.\<close>

definition contains_recursive :: "'a node \<Rightarrow> 'a \<Rightarrow> error + bool" where
  "contains_recursive t v =
     (case find_bfs t (bfs_begin []) bfs_end v of
        Inl e \<Rightarrow> Inl e
      | Inr it \<Rightarrow> Inr (bfs_neq it bfs_end))"

text \<open>
  \<^verbatim>\<open>contains\<close> (lines 245-248) is
  \<^verbatim>\<open>return std::find(this->begin(), this->end(), data) != this->end();\<close> in a \<^verbatim>\<open>const\<close>
  member function. \<^verbatim>\<open>std::find\<close> there compares \<^verbatim>\<open>*it == data\<close> with a
  \<^verbatim>\<open>const node<T>\<close> on the left and a \<^verbatim>\<open>const T\<close> on the right. Both member operators
  (lines 85-93) are non-const member functions, so neither can be called on the const
  child, and the free template (lines 280-284) takes two nodes, so \<^verbatim>\<open>T\<close> cannot be
  deduced from the value. No \<^verbatim>\<open>operator==\<close> applies: the member function cannot be
  instantiated, returns nothing for any argument, and has no definition here.
\<close>

text \<open>\<open>k\<close> times \<^verbatim>\<open>++it\<close>.\<close>

fun dfs_advance :: "'a node \<Rightarrow> nat \<Rightarrow> dfs_iterator \<Rightarrow> error + dfs_iterator" where
  "dfs_advance t 0 it = Inr it"
| "dfs_advance t (Suc k) it =
     (case dfs_next t it of Inl e \<Rightarrow> Inl e | Inr it' \<Rightarrow> dfs_advance t k it')"

fun bfs_advance :: "'a node \<Rightarrow> nat \<Rightarrow> bfs_iterator \<Rightarrow> error + bfs_iterator" where
  "bfs_advance t 0 it = Inr it"
| "bfs_advance t (Suc k) it =
     (case bfs_next t it of Inl e \<Rightarrow> Inl e | Inr it' \<Rightarrow> bfs_advance t k it')"

section \<open>Appending\<close>

text \<open>
  \<^verbatim>\<open>operator>>(node<T>& a, node<T>& b)\<close> (lines 286-291) is
  \<^verbatim>\<open>a.push_back(b); return a.back();\<close>. Both arguments are references to node objects
  of the caller, which may be two separate objects, the same object, or one inside the
  other. The objects of the caller are a store: the list of the nodes that no other node
  owns, each with everything below it. An address in the store is the index of such a
  node followed by the path to the node inside it, so every node object has one address
  and one owner.
\<close>

type_synonym 'a store = "'a node list"

fun deref_store :: "'a store \<Rightarrow> ptr \<Rightarrow> 'a node option" where
  "deref_store s [] = None"
| "deref_store s (i # p) = (if i < length s then deref (s ! i) p else None)"

text \<open>The node at an address replaced by its image under \<open>f\<close>; every other node keeps its
  place.\<close>

fun update_at :: "'a node \<Rightarrow> ptr \<Rightarrow> ('a node \<Rightarrow> 'a node) \<Rightarrow> 'a node" where
  "update_at t [] f = f t"
| "update_at t (i # p) f =
     (if i < length (children t)
      then Node (data t) ((children t)[i := update_at (children t ! i) p f])
      else t)"

fun update_store :: "'a store \<Rightarrow> ptr \<Rightarrow> ('a node \<Rightarrow> 'a node) \<Rightarrow> 'a store" where
  "update_store s [] f = s"
| "update_store s (i # p) f = (if i < length s then s[i := update_at (s ! i) p f] else s)"

text \<open>\<^verbatim>\<open>std::list::push_back(const value_type& x)\<close> on the children of \<open>a\<close>: the new last
  element is constructed from \<^verbatim>\<open>x\<close> by the copy constructor of \<^verbatim>\<open>node\<close>, then linked in;
  the elements already there stay where they are.\<close>

definition push_back :: "'a node \<Rightarrow> 'a node \<Rightarrow> 'a node" where
  "push_back a x = Node (data a) (children a @ [node_copy x])"

text \<open>\<^verbatim>\<open>back()\<close>: the address of the last child, relative to the node; not defined on a
  node without children.\<close>

definition list_back :: "'a node \<Rightarrow> error + ptr" where
  "list_back a = (if children a = [] then Inl Empty_container else Inr [length (children a) - 1])"

text \<open>\<^verbatim>\<open>operator>>\<close> on the store: the node at \<open>b\<close> is read as it is when the call is
  made, its copy is appended to the children of the node at \<open>a\<close>, and the result is the
  store after the call with the address of \<^verbatim>\<open>a.back()\<close>.\<close>

definition append_node :: "'a store \<Rightarrow> ptr \<Rightarrow> ptr \<Rightarrow> error + 'a store \<times> ptr" where
  "append_node s a b =
     (case deref_store s a of
        None \<Rightarrow> Inl Dangling_pointer
      | Some na \<Rightarrow>
         (case deref_store s b of
            None \<Rightarrow> Inl Dangling_pointer
          | Some nb \<Rightarrow>
             (let s1 = update_store s a (\<lambda>n. push_back n nb) in
              case deref_store s1 a of
                None \<Rightarrow> Inl Dangling_pointer
              | Some na1 \<Rightarrow>
                 (case list_back na1 of
                    Inl e \<Rightarrow> Inl e
                  | Inr r \<Rightarrow> Inr (s1, a @ r)))))"

section \<open>Notions the properties are stated with\<close>

text \<open>Pre-order: a node, then the pre-orders of its children from left to right. The
  list holds the node and every node below it, each once.\<close>

fun preorder :: "'a node \<Rightarrow> 'a node list" where
  "preorder (Node d cs) = Node d cs # concat (map preorder cs)"

text \<open>The nodes strictly below a node, at every depth.\<close>

definition descendants :: "'a node \<Rightarrow> 'a node list" where
  "descendants t = concat (map preorder (children t))"

text \<open>How many nodes of a list hold the value \<open>v\<close>.\<close>

definition count_value :: "'a \<Rightarrow> 'a node list \<Rightarrow> nat" where
  "count_value v ns = length (filter (\<lambda>n. node_eq_value n v) ns)"

text \<open>The number of nodes of a tree.\<close>

fun count_nodes :: "'a node \<Rightarrow> nat" where
  "count_nodes (Node d cs) = Suc (sum_list (map count_nodes cs))"

text \<open>The tree without the subtrees, at any depth below the root, whose root holds
  \<open>v\<close>.\<close>

fun prune :: "'a \<Rightarrow> 'a node \<Rightarrow> 'a node" where
  "prune v (Node d cs) = Node d (map (prune v) (filter (\<lambda>c. data c \<noteq> v) cs))"

text \<open>Level order of a forest: its roots from left to right, then the level order of
  the forest of their children. For a single tree this is the root, then the nodes of
  depth 1 from left to right, then those of depth 2, and so on.\<close>

lemma forest_children_size:
  "sum_list (map size (concat (map children ns))) + length ns \<le> sum_list (map size ns)"
proof (induction ns)
  case Nil
  show ?case by simp
next
  case (Cons n ns)
  have "sum_list (map size (children n)) < size n"
    by (cases n) (simp add: size_list_conv_sum_list)
  with Cons show ?case by simp
qed

function level_order :: "'a node list \<Rightarrow> 'a node list" where
  "level_order [] = []"
| "level_order (n # ns) = (n # ns) @ level_order (concat (map children (n # ns)))"
  by pat_completeness auto
termination
proof (relation "measure (\<lambda>ns. sum_list (map size ns))")
  show "wf (measure (\<lambda>ns::'a node list. sum_list (map size ns)))" by simp
next
  fix n :: "'a node" and ns
  show "(concat (map children (n # ns)), n # ns) \<in> measure (\<lambda>ns. sum_list (map size ns))"
    using forest_children_size [of "n # ns"] by simp
qed

text \<open>The value \<open>v\<close> is held by a node at depth \<open>k\<close> below (or, for \<open>k = 0\<close>, at) the
  root.\<close>

fun occurs_at_depth :: "'a \<Rightarrow> nat \<Rightarrow> 'a node \<Rightarrow> bool" where
  "occurs_at_depth v 0 t = node_eq_value t v"
| "occurs_at_depth v (Suc k) t = list_ex (occurs_at_depth v k) (children t)"

section \<open>Recursive removal\<close>

lemma preorder_descendants: "preorder t = t # descendants t"
  by (cases t) (simp add: descendants_def)

lemma count_value_Nil [simp]: "count_value v [] = 0"
  by (simp add: count_value_def)

lemma count_value_Cons:
  "count_value v (n # ns) = (if data n = v then 1 else 0) + count_value v ns"
  by (simp add: count_value_def node_eq_value_def)

lemma count_value_append:
  "count_value v (xs @ ys) = count_value v xs + count_value v ys"
  by (simp add: count_value_def)

lemma count_value_concat:
  "count_value v (concat xss) = sum_list (map (count_value v) xss)"
  by (induction xss) (simp_all add: count_value_append)

lemma data_prune [simp]: "data (prune v t) = data t"
  by (cases t) simp

lemma list_remove_prune:
  "list_remove (node_of_value v) (map (prune v) cs) =
   map (prune v) (filter (\<lambda>c. data c \<noteq> v) cs)"
  by (induction cs) (simp_all add: list_remove_def node_eq_member_def node_of_value_def)

lemma length_list_remove:
  "length cs - length (filter (\<lambda>c. data c \<noteq> v) cs) = count_value v cs"
proof -
  have "length cs = length (filter (\<lambda>c. data c \<noteq> v) cs) + length (filter (\<lambda>c. data c = v) cs)"
    by (induction cs) simp_all
  then show ?thesis
    by (simp add: count_value_def node_eq_value_def)
qed

lemma count_value_preorder:
  "count_value v (preorder t) = (if data t = v then 1 else 0) + count_value v (descendants t)"
  by (simp add: preorder_descendants count_value_Cons)

lemma sum_count_children:
  "sum_list (map (\<lambda>c. count_value v (descendants c)) cs) + count_value v cs =
   sum_list (map (\<lambda>c. count_value v (preorder c)) cs)"
  by (induction cs) (simp_all add: count_value_preorder count_value_Cons)

lemma remove_recursive_prune:
  "remove_recursive v t = (count_value v (descendants t), prune v t)"
  "remove_children v cs many =
     (many + sum_list (map (\<lambda>c. count_value v (descendants c)) cs), map (prune v) cs)"
proof (induction v t and v cs many rule: remove_recursive_remove_children.induct)
  case (1 v d cs)
  have "count_value v (descendants (Node d cs)) =
        sum_list (map (\<lambda>c. count_value v (preorder c)) cs)"
    by (simp add: descendants_def count_value_concat comp_def)
  with 1 show ?case
    by (simp add: list_remove_prune length_list_remove sum_count_children)
next
  case (2 v many)
  show ?case by simp
next
  case (3 v c cs many)
  then show ?case by simp
qed

lemma count_value_prune:
  "count_value v (descendants (prune v t)) = 0"
proof (induction t)
  case (Node d cs)
  have "count_value v (preorder (prune v c)) = 0" if "c \<in> set cs" "data c \<noteq> v" for c
    using that Node.IH [of c] by (simp add: count_value_preorder)
  then have "sum_list (map (\<lambda>c. count_value v (preorder (prune v c)))
               (filter (\<lambda>c. data c \<noteq> v) cs)) = 0"
    by (simp add: sum_list_eq_0_iff)
  then show ?case
    by (simp add: descendants_def count_value_concat comp_def)
qed

lemma prune_absent:
  "count_value v (descendants t) = 0 \<Longrightarrow> prune v t = t"
proof (induction t)
  case (Node d cs)
  have zero: "count_value v (preorder c) = 0" if "c \<in> set cs" for c
    using Node.prems that
    by (simp add: descendants_def count_value_concat comp_def sum_list_eq_0_iff)
  have keep: "data c \<noteq> v" if "c \<in> set cs" for c
    using zero [OF that] by (simp add: count_value_preorder split: if_splits)
  have same: "prune v c = c" if "c \<in> set cs" for c
    using zero [OF that] Node.IH [OF that] by (simp add: count_value_preorder split: if_splits)
  have "filter (\<lambda>c. data c \<noteq> v) cs = cs"
    using keep by (simp add: filter_id_conv)
  moreover have "map (prune v) cs = cs"
    using same by (simp add: map_idI)
  ultimately show ?case by simp
qed

lemma count_nodes_preorder: "count_nodes t = length (preorder t)"
  by (induction t) (simp add: length_concat comp_def cong: map_cong)

lemma count_nodes_prune:
  "count_nodes (prune v t) + count_value v (descendants t) \<le> count_nodes t"
proof (induction t)
  case (Node d cs)
  have step: "sum_list (map (\<lambda>c. count_nodes (prune v c)) (filter (\<lambda>c. data c \<noteq> v) xs))
          + sum_list (map (\<lambda>c. count_value v (preorder c)) xs)
        \<le> sum_list (map count_nodes xs)" if "set xs \<subseteq> set cs" for xs
    using that
  proof (induction xs)
    case Nil
    show ?case by simp
  next
    case (Cons x xs)
    have a: "count_nodes (prune v x) + count_value v (descendants x) \<le> count_nodes x"
      using Cons.prems Node.IH [of x] by simp
    have b: "count_value v (preorder x) \<le> count_nodes x"
      by (simp add: count_nodes_preorder count_value_def)
    have c: "data x \<noteq> v \<Longrightarrow> count_value v (preorder x) = count_value v (descendants x)"
      by (simp add: count_value_preorder)
    show ?case
    proof (cases "data x = v")
      case True
      then show ?thesis using Cons.IH Cons.prems b by simp
    next
      case False
      then show ?thesis using Cons.IH Cons.prems a c by simp
    qed
  qed
  show ?case
    using step [of cs] by (simp add: descendants_def count_value_concat comp_def)
qed

text \<open>
  C1. For every node \<open>t\<close> and value \<open>v\<close>, \<^verbatim>\<open>remove_recursive(v)\<close> returns the number of
  nodes strictly below \<open>t\<close> that hold \<open>v\<close>; afterwards no node below \<open>t\<close> holds \<open>v\<close>, at
  any depth; \<open>t\<close> itself stays, with its value; its children are the children after
  their own recursive calls, with those that hold \<open>v\<close> then removed; and when \<open>v\<close> occurs
  nowhere below \<open>t\<close> the call returns 0 and leaves the tree as it was.
\<close>

theorem remove_recursive_correct:
  "fst (remove_recursive v t) = count_value v (descendants t)
   \<and> count_value v (descendants (snd (remove_recursive v t))) = 0
   \<and> data (snd (remove_recursive v t)) = data t
   \<and> children (snd (remove_recursive v t)) =
       list_remove (node_of_value v) (map (\<lambda>c. snd (remove_recursive v c)) (children t))
   \<and> (count_value v (descendants t) = 0 \<longrightarrow> remove_recursive v t = (0, t))"
proof -
  have "children (prune v t) = list_remove (node_of_value v) (map (prune v) (children t))"
    by (cases t) (simp add: list_remove_prune)
  then show ?thesis
    by (simp add: remove_recursive_prune count_value_prune prune_absent)
qed

text \<open>The hypothesis of the last part holds for the value 7 in \<open>1[2[3], 9]\<close>, and the
  call returns 0 and the same tree.\<close>

theorem remove_recursive_correct_witness:
  "count_value (7::nat) (descendants (Node 1 [Node 2 [Node 3 []], Node 9 []])) = 0
   \<and> remove_recursive (7::nat) (Node 1 [Node 2 [Node 3 []], Node 9 []])
       = (0, Node 1 [Node 2 [Node 3 []], Node 9 []])"
proof -
  have z: "count_value (7::nat) (descendants (Node 1 [Node 2 [Node 3 []], Node 9 []])) = 0"
    by (simp add: descendants_def count_value_def node_eq_value_def)
  have "remove_recursive (7::nat) (Node 1 [Node 2 [Node 3 []], Node 9 []])
       = (0, Node 1 [Node 2 [Node 3 []], Node 9 []])"
    using remove_recursive_correct [of 7 "Node 1 [Node 2 [Node 3 []], Node 9 []]"] z by blast
  then show ?thesis
    using z by simp
qed

text \<open>
  C10. The return value of \<^verbatim>\<open>remove_recursive(v)\<close> is the number of nodes strictly below
  the node that hold \<open>v\<close>. A direct child that holds \<open>v\<close> goes with everything below it:
  the children that remain are those that do not hold \<open>v\<close> (after their own recursive
  calls). The nodes below a removed child that do not hold \<open>v\<close> are not counted, so the
  return value is at most the number of nodes that disappear, and can be less: in
  \<open>0[1[2, 3]]\<close> removing 1 returns 1 while three nodes disappear.
\<close>

theorem remove_recursive_counts_matches_only:
  "fst (remove_recursive v t) = count_value v (descendants t)
   \<and> children (snd (remove_recursive v t)) =
       map (\<lambda>c. snd (remove_recursive v c)) (filter (\<lambda>c. \<not> node_eq_value c v) (children t))
   \<and> fst (remove_recursive v t) \<le> count_nodes t - count_nodes (snd (remove_recursive v t))
   \<and> fst (remove_recursive (1::nat) (Node 0 [Node 1 [Node 2 [], Node 3 []]])) = 1
   \<and> count_nodes (Node (0::nat) [Node 1 [Node 2 [], Node 3 []]])
       - count_nodes (snd (remove_recursive (1::nat) (Node 0 [Node 1 [Node 2 [], Node 3 []]]))) = 3"
proof -
  have "children (prune v t) = map (prune v) (filter (\<lambda>c. \<not> node_eq_value c v) (children t))"
    by (cases t) (simp add: node_eq_value_def)
  moreover have "count_value v (descendants t) \<le> count_nodes t - count_nodes (prune v t)"
    using count_nodes_prune [of v t] by simp
  ultimately show ?thesis
    by (simp add: remove_recursive_prune descendants_def count_value_def node_eq_value_def)
qed

section \<open>Depth-first traversal\<close>

text \<open>The loops are unfolded by hand, one step at a time.\<close>

declare dfs_visit.simps [simp del] bfs_visit.simps [simp del] find_bfs.simps [simp del]

text \<open>The invariant of a traversal: the addresses in the container point to the nodes
  \<open>ns\<close>, in this order. From it the rest of the visit is the pre-order of the forest
  \<open>ns\<close>.\<close>

lemma dfs_neq_end: "dfs_neq it dfs_end = (stack it \<noteq> [])"
  by (simp add: dfs_neq_def dfs_arrow_def dfs_end_def dfs_iterator_default_def split: list.splits)

lemma stack_dfs_end: "stack dfs_end = []"
  by (simp add: dfs_end_def dfs_iterator_default_def)

lemma dfs_step:
  assumes "stack it = p # ps" "deref t p = Some n"
  shows "dfs_star t it = Inr n"
    and "dfs_next t it = Inr (it\<lparr>stack := child_ptrs p n @ ps\<rparr>)"
  using assms by (simp_all add: dfs_star_def dfs_next_def fold_push)

lemma pointees_Cons:
  assumes "map (deref t) (p # ps) = map Some ns"
  obtains n ns' where "ns = n # ns'" "deref t p = Some n" "map (deref t) ps = map Some ns'"
  using assms by (cases ns) auto

lemma pointees_step:
  assumes "deref t p = Some n" "map (deref t) ps = map Some ns"
  shows "map (deref t) (child_ptrs p n @ ps) = map Some (children n @ ns)"
    and "map (deref t) (ps @ child_ptrs p n) = map Some (ns @ children n)"
  using assms by (simp_all add: map_deref_child_ptrs)

lemma preorder_forest_Cons:
  "concat (map preorder (n # ns)) = n # concat (map preorder (children n @ ns))"
  by (cases n) simp

lemma dfs_visit_preorder:
  "map (deref t) (stack it) = map Some ns \<Longrightarrow>
   dfs_visit t it = Inr (concat (map preorder ns))"
proof (induction t it arbitrary: ns rule: dfs_visit.induct)
  case (1 t it)
  show ?case
  proof (cases "stack it")
    case Nil
    with "1.prems" show ?thesis
      by (simp add: dfs_visit.simps [of t it] dfs_neq_end)
  next
    case (Cons p ps)
    with "1.prems" obtain n ns' where
      ns: "ns = n # ns'" and p: "deref t p = Some n" and ps: "map (deref t) ps = map Some ns'"
      by (auto elim: pointees_Cons)
    let ?it' = "it\<lparr>stack := child_ptrs p n @ ps\<rparr>"
    have neq: "dfs_neq it dfs_end"
      using Cons by (simp add: dfs_neq_end)
    note star = dfs_step(1) [OF Cons p] and nxt = dfs_step(2) [OF Cons p]
    have "map (deref t) (stack ?it') = map Some (children n @ ns')"
      using pointees_step(1) [OF p ps] by simp
    then have "dfs_visit t ?it' = Inr (concat (map preorder (children n @ ns')))"
      by (rule "1.IH" [OF neq star nxt])
    then show ?thesis
      unfolding ns preorder_forest_Cons
      by (simp add: dfs_visit.simps [of t it] neq star nxt)
  qed
qed

lemma dfs_advance_drop:
  "map (deref t) (stack it) = map Some ns \<Longrightarrow>
   \<exists>it' ns'. dfs_advance t k it = Inr it' \<and> map (deref t) (stack it') = map Some ns'
     \<and> concat (map preorder ns') = drop k (concat (map preorder ns))"
proof (induction k arbitrary: it ns)
  case 0
  then show ?case by auto
next
  case (Suc k)
  show ?case
  proof (cases "stack it")
    case Nil
    then have "dfs_next t it = Inr it"
      by (simp add: dfs_next_def)
    moreover have "ns = []"
      using Suc.prems Nil by simp
    ultimately show ?thesis
      using Suc.IH [OF Suc.prems] by auto
  next
    case (Cons p ps)
    with Suc.prems obtain n ns' where
      ns: "ns = n # ns'" and p: "deref t p = Some n" and ps: "map (deref t) ps = map Some ns'"
      by (auto elim: pointees_Cons)
    let ?it' = "it\<lparr>stack := child_ptrs p n @ ps\<rparr>"
    have "map (deref t) (stack ?it') = map Some (children n @ ns')"
      using pointees_step(1) [OF p ps] by simp
    from Suc.IH [OF this] show ?thesis
      unfolding ns preorder_forest_Cons
      by (simp add: dfs_step(2) [OF Cons p])
  qed
qed

lemma preorder_forest_empty: "concat (map preorder ns) = [] \<longleftrightarrow> ns = []"
proof (cases ns)
  case Nil
  then show ?thesis by simp
next
  case (Cons n ns')
  then show ?thesis by (cases n) simp
qed

lemma pointees_root_dfs: "map (deref t) (stack (dfs_begin [])) = map Some [t]"
  by (simp add: dfs_begin_def dfs_iterator_root_def push_def)

lemma dfs_advance_end:
  "map_sum id (\<lambda>it. dfs_neq it dfs_end) (dfs_advance t k (dfs_begin [])) = Inr (k < count_nodes t)"
proof -
  obtain it' ns' where a: "dfs_advance t k (dfs_begin []) = Inr it'"
    and b: "map (deref t) (stack it') = map Some ns'"
    and c: "concat (map preorder ns') = drop k (concat (map preorder [t]))"
    using dfs_advance_drop [OF pointees_root_dfs] by blast
  have "stack it' = [] \<longleftrightarrow> ns' = []"
    using b by (metis map_is_Nil_conv)
  also have "\<dots> \<longleftrightarrow> drop k (preorder t) = []"
    using c preorder_forest_empty [of ns'] by simp
  also have "\<dots> \<longleftrightarrow> \<not> k < count_nodes t"
    by (simp add: count_nodes_preorder not_less)
  finally show ?thesis
    using a by (simp add: dfs_neq_end)
qed

text \<open>
  C2. For every tree, the iterator from \<^verbatim>\<open>dfs_begin\<close> points to the root first, and the
  nodes it passes until it equals \<^verbatim>\<open>dfs_end\<close> are the nodes of the tree in left-to-right
  pre-order. An advance from a valid top pops it and leaves the addresses of its children
  above the rest of the stack, first child on top. For the root A with children B and C,
  where B has the child D and C has the child E, the order is A, B, D, C, E.
\<close>

theorem dfs_iterator_preorder:
  "dfs_arrow (dfs_begin []) = Some []
   \<and> dfs_star t (dfs_begin []) = Inr t
   \<and> dfs_next t \<lparr>stack = n # rest\<rparr> =
       (case deref t n of
          None \<Rightarrow> Inl Dangling_pointer
        | Some nd \<Rightarrow> Inr \<lparr>stack = child_ptrs n nd @ rest\<rparr>)
   \<and> dfs_visit t (dfs_begin []) = Inr (preorder t)
   \<and> map_sum id (map data)
        (dfs_visit (Node ''A'' [Node ''B'' [Node ''D'' []], Node ''C'' [Node ''E'' []]])
           (dfs_begin []))
       = Inr [''A'', ''B'', ''D'', ''C'', ''E'']"
proof -
  have visit: "dfs_visit t (dfs_begin []) = Inr (preorder t)" for t :: "'b node"
    using dfs_visit_preorder [OF pointees_root_dfs, of t] by simp
  have "dfs_arrow (dfs_begin []) = Some []"
    by (simp add: dfs_arrow_def dfs_begin_def dfs_iterator_root_def push_def)
  moreover have "dfs_star t (dfs_begin []) = Inr t"
    by (simp add: dfs_star_def dfs_begin_def dfs_iterator_root_def push_def)
  moreover have "dfs_next t \<lparr>stack = n # rest\<rparr> =
       (case deref t n of
          None \<Rightarrow> Inl Dangling_pointer
        | Some nd \<Rightarrow> Inr \<lparr>stack = child_ptrs n nd @ rest\<rparr>)"
    by (simp add: dfs_next_def fold_push split: option.splits)
  ultimately show ?thesis
    by (simp add: visit)
qed

section \<open>Breadth-first traversal\<close>

text \<open>A queue that takes the front tree and appends its children at the back produces the
  level order.\<close>

lemma level_order_append:
  "level_order (ts @ us) = ts @ level_order (us @ concat (map children ts))"
proof (induction "ts @ us" arbitrary: ts us rule: level_order.induct)
  case 1
  then show ?case by simp
next
  case (2 n ns)
  let ?C = "\<lambda>xs::'a node list. concat (map children xs)"
  have split: "?C (n # ns) = ?C ts @ ?C us"
    unfolding \<open>n # ns = ts @ us\<close> by simp
  have IH: "level_order (?C ts @ ?C us) = ?C ts @ level_order (?C us @ ?C (?C ts))"
    by (rule "2.hyps"(1) [OF split])
  have left: "level_order (ts @ us) = ts @ us @ level_order (?C ts @ ?C us)"
    using \<open>n # ns = ts @ us\<close> [symmetric] split by (simp del: concat.simps map_append)
  show ?case
  proof (cases "us @ ?C ts")
    case Nil
    then show ?thesis using left by simp
  next
    case (Cons x xs)
    have "level_order (us @ ?C ts) = us @ ?C ts @ level_order (?C us @ ?C (?C ts))"
      using Cons [symmetric]
      by (metis (no_types, lifting) append.assoc concat_append level_order.simps(2) map_append)
    then show ?thesis using left IH by simp
  qed
qed

lemma level_order_Cons:
  "level_order (n # ns) = n # level_order (ns @ children n)"
  using level_order_append [of "[n]" ns] by simp

lemma level_order_empty: "level_order ns = [] \<longleftrightarrow> ns = []"
  by (cases ns) simp_all

lemma mset_preorder_forest:
  "mset (concat (map preorder ns)) = mset ns + mset (concat (map preorder (concat (map children ns))))"
proof (induction ns)
  case Nil
  show ?case by simp
next
  case (Cons n ns)
  then show ?case by (cases n) simp
qed

lemma mset_level_order:
  "mset (level_order ns) = mset (concat (map preorder ns))"
proof (induction ns rule: level_order.induct)
  case 1
  show ?case by simp
next
  case (2 n ns)
  show ?case
    using "2.IH" mset_preorder_forest [of "n # ns"] by (simp del: concat.simps list.map)
qed

lemma set_level_order: "set (level_order [t]) = set (preorder t)"
  using mset_level_order [of "[t]"] by (metis append_Nil2 concat.simps list.simps(8,9) mset_eq_setD)

lemma length_level_order: "length (level_order [t]) = count_nodes t"
  using mset_level_order [of "[t]"] count_nodes_preorder [of t]
  by (metis append_Nil2 concat.simps list.simps(8,9) size_mset)

lemma bfs_neq_end: "bfs_neq it bfs_end = (queue it \<noteq> [])"
  by (simp add: bfs_neq_def bfs_arrow_def bfs_end_def bfs_iterator_default_def split: list.splits)

lemma queue_bfs_end: "queue bfs_end = []"
  by (simp add: bfs_end_def bfs_iterator_default_def)

lemma bfs_step:
  assumes "queue it = p # ps" "deref t p = Some n"
  shows "bfs_star t it = Inr n"
    and "bfs_next t it = Inr (it\<lparr>queue := ps @ child_ptrs p n\<rparr>)"
  using assms by (simp_all add: bfs_star_def bfs_next_def fold_enqueue)

lemma bfs_visit_level_order:
  "map (deref t) (queue it) = map Some ns \<Longrightarrow> bfs_visit t it = Inr (level_order ns)"
proof (induction t it arbitrary: ns rule: bfs_visit.induct)
  case (1 t it)
  show ?case
  proof (cases "queue it")
    case Nil
    with "1.prems" show ?thesis
      by (simp add: bfs_visit.simps [of t it] bfs_neq_end)
  next
    case (Cons p ps)
    with "1.prems" obtain n ns' where
      ns: "ns = n # ns'" and p: "deref t p = Some n" and ps: "map (deref t) ps = map Some ns'"
      by (auto elim: pointees_Cons)
    let ?it' = "it\<lparr>queue := ps @ child_ptrs p n\<rparr>"
    have neq: "bfs_neq it bfs_end"
      using Cons by (simp add: bfs_neq_end)
    note star = bfs_step(1) [OF Cons p] and nxt = bfs_step(2) [OF Cons p]
    have "map (deref t) (queue ?it') = map Some (ns' @ children n)"
      using pointees_step(2) [OF p ps] by simp
    then have "bfs_visit t ?it' = Inr (level_order (ns' @ children n))"
      by (rule "1.IH" [OF neq star nxt])
    then show ?thesis
      unfolding ns level_order_Cons
      by (simp add: bfs_visit.simps [of t it] neq star nxt)
  qed
qed

lemma bfs_advance_drop:
  "map (deref t) (queue it) = map Some ns \<Longrightarrow>
   \<exists>it' ns'. bfs_advance t k it = Inr it' \<and> map (deref t) (queue it') = map Some ns'
     \<and> level_order ns' = drop k (level_order ns)"
proof (induction k arbitrary: it ns)
  case 0
  then show ?case by auto
next
  case (Suc k)
  show ?case
  proof (cases "queue it")
    case Nil
    then have "bfs_next t it = Inr it"
      by (simp add: bfs_next_def)
    moreover have "ns = []"
      using Suc.prems Nil by simp
    ultimately show ?thesis
      using Suc.IH [OF Suc.prems] by auto
  next
    case (Cons p ps)
    with Suc.prems obtain n ns' where
      ns: "ns = n # ns'" and p: "deref t p = Some n" and ps: "map (deref t) ps = map Some ns'"
      by (auto elim: pointees_Cons)
    let ?it' = "it\<lparr>queue := ps @ child_ptrs p n\<rparr>"
    have "map (deref t) (queue ?it') = map Some (ns' @ children n)"
      using pointees_step(2) [OF p ps] by simp
    from Suc.IH [OF this] show ?thesis
      unfolding ns level_order_Cons
      by (simp add: bfs_step(2) [OF Cons p])
  qed
qed

lemma pointees_root_bfs: "map (deref t) (queue (bfs_begin [])) = map Some [t]"
  by (simp add: bfs_begin_def bfs_iterator_root_def enqueue_def)

lemma bfs_advance_end:
  "map_sum id (\<lambda>it. bfs_neq it bfs_end) (bfs_advance t k (bfs_begin [])) = Inr (k < count_nodes t)"
proof -
  obtain it' ns' where a: "bfs_advance t k (bfs_begin []) = Inr it'"
    and b: "map (deref t) (queue it') = map Some ns'"
    and c: "level_order ns' = drop k (level_order [t])"
    using bfs_advance_drop [OF pointees_root_bfs] by blast
  have "queue it' = [] \<longleftrightarrow> ns' = []"
    using b by (metis map_is_Nil_conv)
  also have "\<dots> \<longleftrightarrow> drop k (level_order [t]) = []"
    using c level_order_empty [of ns'] by simp
  also have "\<dots> \<longleftrightarrow> \<not> k < count_nodes t"
    by (simp only: drop_eq_Nil length_level_order not_less)
  finally show ?thesis
    using a by (simp add: bfs_neq_end)
qed

lemma find_bfs_level_order:
  "map (deref t) (queue it) = map Some ns \<Longrightarrow>
   \<exists>it'. find_bfs t it bfs_end v = Inr it'
     \<and> bfs_neq it' bfs_end = (v \<in> data ` set (level_order ns))"
proof (induction t it "bfs_end" v arbitrary: ns rule: find_bfs.induct)
  case (1 t it v)
  show ?case
  proof (cases "queue it")
    case Nil
    with "1.prems" show ?thesis
      by (simp add: find_bfs.simps [of t it] bfs_neq_end queue_bfs_end)
  next
    case (Cons p ps)
    with "1.prems" obtain n ns' where
      ns: "ns = n # ns'" and p: "deref t p = Some n" and ps: "map (deref t) ps = map Some ns'"
      by (auto elim: pointees_Cons)
    let ?it' = "it\<lparr>queue := ps @ child_ptrs p n\<rparr>"
    have neq: "bfs_neq it bfs_end"
      using Cons by (simp add: bfs_neq_end)
    note star = bfs_step(1) [OF Cons p] and nxt = bfs_step(2) [OF Cons p]
    show ?thesis
    proof (cases "node_eq_value n v")
      case True
      then show ?thesis
        unfolding ns level_order_Cons
        by (simp add: find_bfs.simps [of t it] neq star) (auto simp: node_eq_value_def)
    next
      case False
      have "map (deref t) (queue ?it') = map Some (ns' @ children n)"
        using pointees_step(2) [OF p ps] by simp
      from "1.hyps" [OF neq star False nxt this] False show ?thesis
        unfolding ns level_order_Cons
        by (simp add: find_bfs.simps [of t it] neq star nxt) (auto simp: node_eq_value_def)
    qed
  qed
qed

lemma contains_recursive_preorder:
  "contains_recursive t v = Inr (v \<in> data ` set (preorder t))"
proof -
  obtain it' where a: "find_bfs t (bfs_begin []) bfs_end v = Inr it'"
    and b: "bfs_neq it' bfs_end = (v \<in> data ` set (level_order [t]))"
    using find_bfs_level_order [OF pointees_root_bfs, of t v] by blast
  from a have "contains_recursive t v = Inr (bfs_neq it' bfs_end)"
    by (simp add: contains_recursive_def)
  then show ?thesis
    unfolding b set_level_order .
qed

text \<open>
  C3. For every tree, the iterator from \<^verbatim>\<open>bfs_begin\<close> points to the root first, and the
  nodes it passes until it equals \<^verbatim>\<open>bfs_end\<close> are the nodes of the tree in level order.
  An advance from a valid front pops it and puts the addresses of its children behind the
  rest of the queue, in their order. For the root A with children B and C, where B has
  the child D and C has the child E, the order is A, B, C, D, E.
\<close>

theorem bfs_iterator_level_order:
  "bfs_arrow (bfs_begin []) = Some []
   \<and> bfs_star t (bfs_begin []) = Inr t
   \<and> bfs_next t \<lparr>queue = n # rest\<rparr> =
       (case deref t n of
          None \<Rightarrow> Inl Dangling_pointer
        | Some nd \<Rightarrow> Inr \<lparr>queue = rest @ child_ptrs n nd\<rparr>)
   \<and> bfs_visit t (bfs_begin []) = Inr (level_order [t])
   \<and> map_sum id (map data)
        (bfs_visit (Node ''A'' [Node ''B'' [Node ''D'' []], Node ''C'' [Node ''E'' []]])
           (bfs_begin []))
       = Inr [''A'', ''B'', ''C'', ''D'', ''E'']"
proof -
  have visit: "bfs_visit t (bfs_begin []) = Inr (level_order [t])" for t :: "'b node"
    using bfs_visit_level_order [OF pointees_root_bfs, of t] .
  have "bfs_arrow (bfs_begin []) = Some []"
    by (simp add: bfs_arrow_def bfs_begin_def bfs_iterator_root_def enqueue_def)
  moreover have "bfs_star t (bfs_begin []) = Inr t"
    by (simp add: bfs_star_def bfs_begin_def bfs_iterator_root_def enqueue_def)
  moreover have "bfs_next t \<lparr>queue = n # rest\<rparr> =
       (case deref t n of
          None \<Rightarrow> Inl Dangling_pointer
        | Some nd \<Rightarrow> Inr \<lparr>queue = rest @ child_ptrs n nd\<rparr>)"
    by (simp add: bfs_next_def fold_enqueue split: option.splits)
  ultimately show ?thesis
    by (simp add: visit)
qed

section \<open>Equality and containment\<close>

lemma count_value_zero: "count_value v ns = 0 \<longleftrightarrow> v \<notin> data ` set ns"
  by (induction ns) (auto simp: count_value_Cons)

text \<open>
  C4. For all nodes \<open>a\<close> and \<open>b\<close>, \<^verbatim>\<open>a == b\<close> holds exactly when their values are equal,
  for the member operator and for the free one. The children take no part: two nodes
  with the same value and different children compare equal.
\<close>

theorem node_equality_by_value:
  "node_eq a b = (data a = data b)
   \<and> node_eq_member a b = (data a = data b)
   \<and> node_eq (Node x cs) (Node x ds)
   \<and> node_eq_member (Node x cs) (Node x ds)
   \<and> node_eq (Node (1::nat) [Node 2 []]) (Node 1 [])
   \<and> Node (1::nat) [Node 2 []] \<noteq> Node 1 []"
  by (simp add: node_eq_def node_eq_member_def)

text \<open>
  C5. \<^verbatim>\<open>contains\<close> cannot be instantiated, so nothing is returned for any node and value,
  where the claim has it return whether a direct child holds the value. The part of the
  claim on \<^verbatim>\<open>contains_recursive\<close> holds: \<^verbatim>\<open>contains_recursive(v)\<close> returns, and is true
  exactly when \<open>v\<close> is the value of the node itself or of a node below it at any depth.
  For the root A with children B and C, where B has the child D and C has the child E, D
  is not the value of a direct child of A and \<^verbatim>\<open>A.contains_recursive(D)\<close> is true.
\<close>

theorem contains_recursive_node_or_descendant:
  "contains_recursive t v = Inr (data t = v \<or> v \<in> data ` set (descendants t))
   \<and> ''D'' \<notin> data ` set (children (Node ''A'' [Node ''B'' [Node ''D'' []], Node ''C'' [Node ''E'' []]]))
   \<and> contains_recursive (Node ''A'' [Node ''B'' [Node ''D'' []], Node ''C'' [Node ''E'' []]]) ''D''
       = Inr True"
proof -
  have deep: "contains_recursive t v = Inr (data t = v \<or> v \<in> data ` set (descendants t))"
    for t :: "'b node" and v
    by (auto simp: contains_recursive_preorder preorder_descendants)
  show ?thesis
    by (simp add: deep descendants_def)
qed

section \<open>Removal of a value that occurs at two depths\<close>

text \<open>
  As stated for every subtree in which the value is present at two different depths, C6
  fails. In \<open>1[1]\<close> the value 1 is present at depths 0 and 1, twice in all; the root is
  never removed, so the call returns 1 and \<^verbatim>\<open>contains_recursive(1)\<close> is still true.
  In \<open>0[1[1], 1]\<close> the value 1 is present at depths 1 and 2, and the call returns 3.
\<close>

theorem remove_two_depths_counterexample:
  "occurs_at_depth (1::nat) 0 (Node 1 [Node 1 []])
   \<and> occurs_at_depth (1::nat) 1 (Node 1 [Node 1 []])
   \<and> count_value (1::nat) (preorder (Node 1 [Node 1 []])) = 2
   \<and> fst (remove_recursive (1::nat) (Node 1 [Node 1 []])) = 1
   \<and> contains_recursive (snd (remove_recursive (1::nat) (Node 1 [Node 1 []]))) 1 = Inr True
   \<and> occurs_at_depth (1::nat) 1 (Node 0 [Node 1 [Node 1 []], Node 1 []])
   \<and> occurs_at_depth (1::nat) 2 (Node 0 [Node 1 [Node 1 []], Node 1 []])
   \<and> fst (remove_recursive (1::nat) (Node 0 [Node 1 [Node 1 []], Node 1 []])) = 3"
  by (simp add: remove_recursive_prune contains_recursive_preorder descendants_def
      count_value_def node_eq_value_def numeral_2_eq_2)

text \<open>
  C6, amended. For every subtree whose root does not hold \<open>x\<close> and in which exactly two
  nodes hold \<open>x\<close> (at two different depths, or at the same one),
  \<^verbatim>\<open>remove_recursive(x)\<close> returns 2 and afterwards \<^verbatim>\<open>contains_recursive(x)\<close> on that
  subtree is false.
\<close>

theorem remove_two_occurrences:
  assumes "count_value x (descendants t) = 2" and "data t \<noteq> x"
  shows "fst (remove_recursive x t) = 2
         \<and> contains_recursive (snd (remove_recursive x t)) x = Inr False"
proof -
  have "count_value x (preorder (prune x t)) = 0"
    using assms(2) by (simp add: count_value_preorder count_value_prune)
  then have "x \<notin> data ` set (preorder (prune x t))"
    unfolding count_value_zero .
  then show ?thesis
    using assms(1) by (simp add: remove_recursive_prune contains_recursive_preorder)
qed

text \<open>The hypotheses hold for \<open>0[1, 2[1]]\<close>, where 1 is held at depth 1 and at depth 2.\<close>

theorem remove_two_occurrences_witness:
  "occurs_at_depth (1::nat) 1 (Node 0 [Node 1 [], Node 2 [Node 1 []]])
   \<and> occurs_at_depth (1::nat) 2 (Node 0 [Node 1 [], Node 2 [Node 1 []]])
   \<and> count_value (1::nat) (descendants (Node 0 [Node 1 [], Node 2 [Node 1 []]])) = 2
   \<and> data (Node (0::nat) [Node 1 [], Node 2 [Node 1 []]]) \<noteq> 1
   \<and> fst (remove_recursive (1::nat) (Node 0 [Node 1 [], Node 2 [Node 1 []]])) = 2
   \<and> contains_recursive (snd (remove_recursive (1::nat) (Node 0 [Node 1 [], Node 2 [Node 1 []]]))) 1
       = Inr False"
proof -
  have a: "count_value (1::nat) (descendants (Node 0 [Node 1 [], Node 2 [Node 1 []]])) = 2"
    by (simp add: descendants_def count_value_def node_eq_value_def)
  have b: "data (Node (0::nat) [Node 1 [], Node 2 [Node 1 []]]) \<noteq> 1"
    by simp
  have c: "occurs_at_depth (1::nat) 1 (Node 0 [Node 1 [], Node 2 [Node 1 []]])
   \<and> occurs_at_depth (1::nat) 2 (Node 0 [Node 1 [], Node 2 [Node 1 []]])"
    by (simp add: node_eq_value_def numeral_2_eq_2)
  show ?thesis
    using remove_two_occurrences [OF a b] a b c by blast
qed

section \<open>Appending a node\<close>

lemma node_copy_id: "node_copy n = n"
  by (induction n) (simp add: map_idI)

lemma children_push_back: "children (push_back n x) = children n @ [x]"
  by (simp add: push_back_def node_copy_id)

lemma data_push_back: "data (push_back n x) = data n"
  by (simp add: push_back_def)

lemma deref_update_at_same:
  "deref t a = Some na \<Longrightarrow> deref (update_at t a f) a = Some (f na)"
  by (induction a arbitrary: t) (auto split: if_splits)

lemma deref_push_back_old:
  "deref n (j # r) = Some m \<Longrightarrow> deref (push_back n x) (j # r) = Some m"
  by (auto simp: push_back_def nth_append split: if_splits)

lemma deref_update_at_other:
  "deref t a = Some na \<Longrightarrow> deref t b = Some nb \<Longrightarrow>
   deref (update_at t a (\<lambda>n. push_back n x)) b =
     Some (if prefix b a then update_at nb (drop (length b) a) (\<lambda>n. push_back n x) else nb)"
proof (induction a arbitrary: t b)
  case Nil
  show ?case
  proof (cases b)
    case Nil
    with Nil.prems show ?thesis by simp
  next
    case (Cons j r)
    have "deref (push_back t x) (j # r) = Some nb"
      using Nil.prems(2) unfolding Cons by (rule deref_push_back_old)
    then show ?thesis
      unfolding Cons by simp
  qed
next
  case (Cons i a')
  from Cons.prems(1) have i: "i < length (children t)" and
    c: "deref (children t ! i) a' = Some na"
    by (auto split: if_splits)
  show ?case
  proof (cases b)
    case Nil
    with Cons.prems(2) i show ?thesis by simp
  next
    case (Cons j r)
    with Cons.prems(2) have j: "j < length (children t)" and
      d: "deref (children t ! j) r = Some nb"
      by (auto split: if_splits)
    show ?thesis
    proof (cases "j = i")
      case True
      with Cons.IH [OF c, of r] d i Cons show ?thesis by simp
    next
      case False
      with i j d Cons show ?thesis by simp
    qed
  qed
qed

lemma deref_store_append:
  "deref_store s a = Some na \<Longrightarrow> deref_store s (a @ q) = deref na q"
  by (cases a) (auto simp: deref_append split: if_splits)

lemma deref_update_store_same:
  "deref_store s a = Some na \<Longrightarrow> deref_store (update_store s a f) a = Some (f na)"
  by (cases a) (auto simp: deref_update_at_same split: if_splits)

lemma deref_update_store_other:
  assumes "deref_store s a = Some na" "deref_store s b = Some nb"
  shows "deref_store (update_store s a (\<lambda>n. push_back n x)) b =
     Some (if prefix b a then update_at nb (drop (length b) a) (\<lambda>n. push_back n x) else nb)"
proof -
  from assms(1) obtain i a' where a: "a = i # a'" and i: "i < length s"
    and na: "deref (s ! i) a' = Some na"
    by (cases a) (auto split: if_splits)
  from assms(2) obtain j r where b: "b = j # r" and j: "j < length s"
    and nb: "deref (s ! j) r = Some nb"
    by (cases b) (auto split: if_splits)
  show ?thesis
  proof (cases "j = i")
    case True
    with deref_update_at_other [OF na, of r nb x] nb i a b show ?thesis by simp
  next
    case False
    with i j nb a b show ?thesis by simp
  qed
qed

text \<open>
  As stated, C7 fails: nothing moves. With the separate objects \<open>1\<close> and \<open>2[3]\<close> in the
  store, after \<^verbatim>\<open>a >> b\<close> the source \<open>2[3]\<close> is where it was and still owns its child.
\<close>

theorem append_node_moves_counterexample:
  "append_node [Node (1::nat) [], Node 2 [Node 3 []]] [0] [1]
     = Inr ([Node 1 [Node 2 [Node 3 []]], Node 2 [Node 3 []]], [0, 0])
   \<and> deref_store [Node (1::nat) [Node 2 [Node 3 []]], Node 2 [Node 3 []]] [1]
       = Some (Node 2 [Node 3 []])
   \<and> children (Node (2::nat) [Node 3 []]) \<noteq> []"
  by (simp add: append_node_def list_back_def push_back_def)

text \<open>
  C7, amended. Appending a fully formed node with \<^verbatim>\<open>operator>>\<close> places a copy of the
  given subtree, made by the copy constructor from the source as it is when the call is
  made, as the new last child of the parent, at an address where no node was before. The
  operation returns a reference to this newly appended child. Nothing moves and no node
  has two owners: the source is left unchanged and keeps its own children whenever the
  parent is neither the source itself nor a node inside the source. When it is, as in
  \<^verbatim>\<open>a >> a\<close>, the source keeps its children and gains the copy at the place of the
  parent.
\<close>

theorem append_node_copies:
  assumes "deref_store s a = Some na" and "deref_store s b = Some nb"
  shows "\<exists>s'. append_node s a b = Inr (s', a @ [length (children na)])
     \<and> deref_store s (a @ [length (children na)]) = None
     \<and> deref_store s' (a @ [length (children na)]) = Some nb
     \<and> deref_store s' a = Some (Node (data na) (children na @ [nb]))
     \<and> deref_store s' b =
         Some (if prefix b a
               then update_at nb (drop (length b) a) (\<lambda>n. Node (data n) (children n @ [nb]))
               else nb)"
proof -
  let ?f = "\<lambda>n. push_back n nb"
  let ?s = "update_store s a ?f"
  have f: "?f = (\<lambda>n. Node (data n) (children n @ [nb]))"
    by (simp add: push_back_def node_copy_id)
  have a1: "deref_store ?s a = Some (?f na)"
    by (rule deref_update_store_same [OF assms(1)])
  have "append_node s a b = Inr (?s, a @ [length (children na)])"
    by (simp add: append_node_def Let_def assms a1 list_back_def children_push_back)
  moreover have "deref_store s (a @ [length (children na)]) = None"
    by (simp add: deref_store_append [OF assms(1)])
  moreover have "deref_store ?s (a @ [length (children na)]) = Some nb"
    by (simp add: deref_store_append [OF a1] children_push_back)
  moreover have "deref_store ?s a = Some (Node (data na) (children na @ [nb]))"
    using a1 by (simp add: push_back_def node_copy_id)
  moreover have "deref_store ?s b =
         Some (if prefix b a
               then update_at nb (drop (length b) a) (\<lambda>n. Node (data n) (children n @ [nb]))
               else nb)"
    using deref_update_store_other [OF assms, where x = nb] unfolding f .
  ultimately show ?thesis by blast
qed

text \<open>The hypotheses hold for the separate objects \<open>1\<close> and \<open>2[3]\<close>, where the source is
  unchanged, and for \<^verbatim>\<open>a >> a\<close> on \<open>1[2]\<close>, which becomes \<open>1[2, 1[2]]\<close>.\<close>

theorem append_node_copies_witness:
  "deref_store [Node (1::nat) [], Node 2 [Node 3 []]] [0] = Some (Node 1 [])
   \<and> deref_store [Node (1::nat) [], Node 2 [Node 3 []]] [1] = Some (Node 2 [Node 3 []])
   \<and> append_node [Node (1::nat) [], Node 2 [Node 3 []]] [0] [1]
       = Inr ([Node 1 [Node 2 [Node 3 []]], Node 2 [Node 3 []]], [0, 0])
   \<and> deref_store [Node (1::nat) [Node 2 []]] [0] = Some (Node 1 [Node 2 []])
   \<and> append_node [Node (1::nat) [Node 2 []]] [0] [0]
       = Inr ([Node 1 [Node 2 [], Node 1 [Node 2 []]]], [0, 1])"
proof -
  have a: "deref_store [Node (1::nat) [], Node 2 [Node 3 []]] [0] = Some (Node 1 [])"
    and b: "deref_store [Node (1::nat) [], Node 2 [Node 3 []]] [1] = Some (Node 2 [Node 3 []])"
    and c: "deref_store [Node (1::nat) [Node 2 []]] [0] = Some (Node 1 [Node 2 []])"
    by simp_all
  show ?thesis
    using append_node_copies [OF a b] append_node_copies [OF c c]
    by (simp add: append_node_def list_back_def push_back_def)
qed

section \<open>The end of an iteration\<close>

text \<open>
  As stated, C8 fails for \<^verbatim>\<open>operator*\<close>: on an exhausted iterator it takes \<^verbatim>\<open>top()\<close> or
  \<^verbatim>\<open>front()\<close> of an empty container, which is not defined, and its result type
  \<^verbatim>\<open>node_type&\<close> has no null value.
\<close>

theorem star_at_end_counterexample:
  "dfs_star (Node (0::nat) []) dfs_end = Inl Empty_container
   \<and> bfs_star (Node (0::nat) []) bfs_end = Inl Empty_container"
  by (simp add: dfs_star_def bfs_star_def stack_dfs_end queue_bfs_end)

text \<open>
  C8, amended. \<^verbatim>\<open>operator->\<close> of an exhausted depth-first or breadth-first iterator (one
  whose container is empty, as that of the end iterator is) returns the null pointer,
  and this null result is the end-of-sequence state: an iterator equals the end sentinel
  exactly when its \<^verbatim>\<open>operator->\<close> is null. \<^verbatim>\<open>operator*\<close> has no check: it reads an empty
  container exactly on the exhausted iterators.
\<close>

theorem arrow_at_end_null:
  "dfs_arrow dfs_end = None
   \<and> bfs_arrow bfs_end = None
   \<and> (dfs_arrow it = None) = (stack it = [])
   \<and> (bfs_arrow jt = None) = (queue jt = [])
   \<and> dfs_eq it dfs_end = (dfs_arrow it = None)
   \<and> bfs_eq jt bfs_end = (bfs_arrow jt = None)
   \<and> (dfs_star t it = Inl Empty_container) = (stack it = [])
   \<and> (bfs_star t jt = Inl Empty_container) = (queue jt = [])"
  by (simp add: dfs_eq_def bfs_eq_def dfs_neq_end bfs_neq_end dfs_arrow_def bfs_arrow_def
      dfs_star_def bfs_star_def stack_dfs_end queue_bfs_end split: list.splits option.splits)

text \<open>
  C9. For every tree with \<open>N\<close> nodes, a fresh depth-first or breadth-first iterator
  advanced \<open>N\<close> times equals the end sentinel of its kind; more generally, after \<open>k\<close>
  advances it equals the end sentinel exactly when \<open>N \<le> k\<close>. Advancing an end iterator
  leaves it as it is, and it equals itself.
\<close>

theorem iterators_reach_end:
  "map_sum id (\<lambda>it. dfs_eq it dfs_end) (dfs_advance t (count_nodes t) (dfs_begin [])) = Inr True
   \<and> map_sum id (\<lambda>it. bfs_eq it bfs_end) (bfs_advance t (count_nodes t) (bfs_begin [])) = Inr True
   \<and> map_sum id (\<lambda>it. dfs_eq it dfs_end) (dfs_advance t k (dfs_begin [])) = Inr (count_nodes t \<le> k)
   \<and> map_sum id (\<lambda>it. bfs_eq it bfs_end) (bfs_advance t k (bfs_begin [])) = Inr (count_nodes t \<le> k)
   \<and> dfs_next t dfs_end = Inr dfs_end
   \<and> bfs_next t bfs_end = Inr bfs_end
   \<and> dfs_eq dfs_end dfs_end
   \<and> bfs_eq bfs_end bfs_end"
proof -
  have d: "map_sum id (\<lambda>it. dfs_eq it dfs_end) (dfs_advance t k (dfs_begin []))
           = Inr (count_nodes t \<le> k)" for k
    using dfs_advance_end [of t k]
    by (cases "dfs_advance t k (dfs_begin [])") (auto simp: dfs_eq_def)
  have b: "map_sum id (\<lambda>it. bfs_eq it bfs_end) (bfs_advance t k (bfs_begin []))
           = Inr (count_nodes t \<le> k)" for k
    using bfs_advance_end [of t k]
    by (cases "bfs_advance t k (bfs_begin [])") (auto simp: bfs_eq_def)
  have "dfs_next t dfs_end = Inr dfs_end" "bfs_next t bfs_end = Inr bfs_end"
    by (simp_all add: dfs_next_def bfs_next_def stack_dfs_end queue_bfs_end)
  moreover have "dfs_eq dfs_end dfs_end" "bfs_eq bfs_end bfs_end"
    by (simp_all add: dfs_eq_def dfs_neq_def bfs_eq_def bfs_neq_def)
  ultimately show ?thesis
    using d [of k] b [of k] d [of "count_nodes t"] b [of "count_nodes t"] by simp
qed

end
